theory Spec2Isabelle
  imports Main
begin

section \<open>Python values and built-ins used by preferredsDailyUpdate.py\<close>

text \<open>
  The program is Python 2 (its \<^verbatim>\<open>main\<close> uses the statement \<^verbatim>\<open>print er\<close>), so a
  \<^verbatim>\<open>str\<close> is a sequence of 8-bit characters: a \<^typ>\<open>string\<close> here. The character
  classes are those of the C locale, in which the interpreter starts and which the program
  never changes. Integers are unbounded: \<^typ>\<open>int\<close>.

  An exception is a value of \<open>error\<close>; a function that can raise returns
  \<open>error + 'a\<close>, with \<open>Inl\<close> for the exception. The program raises the plain
  \<^verbatim>\<open>Exception\<close> with a message; the built-ins raise the others.
\<close>

datatype error = Exception string | IndexError | KeyError | ValueError | TypeError

definition isdigit_chr :: "char \<Rightarrow> bool" where
  "isdigit_chr c = (48 \<le> (of_char c :: nat) \<and> (of_char c :: nat) \<le> 57)"

definition isupper_chr :: "char \<Rightarrow> bool" where
  "isupper_chr c = (65 \<le> (of_char c :: nat) \<and> (of_char c :: nat) \<le> 90)"

definition islower_chr :: "char \<Rightarrow> bool" where
  "islower_chr c = (97 \<le> (of_char c :: nat) \<and> (of_char c :: nat) \<le> 122)"

definition isalpha_chr :: "char \<Rightarrow> bool" where
  "isalpha_chr c = (isupper_chr c \<or> islower_chr c)"

definition isalnum_chr :: "char \<Rightarrow> bool" where
  "isalnum_chr c = (isalpha_chr c \<or> isdigit_chr c)"

definition isspace_chr :: "char \<Rightarrow> bool" where
  "isspace_chr c = ((of_char c :: nat) = 32 \<or> (9 \<le> (of_char c :: nat) \<and> (of_char c :: nat) \<le> 13))"

text \<open>\<^verbatim>\<open>s.isalpha()\<close> and \<^verbatim>\<open>s.isalnum()\<close>: false on the empty string.\<close>

definition isalpha :: "string \<Rightarrow> bool" where
  "isalpha s = (s \<noteq> [] \<and> list_all isalpha_chr s)"

definition isalnum :: "string \<Rightarrow> bool" where
  "isalnum s = (s \<noteq> [] \<and> list_all isalnum_chr s)"

text \<open>\<^verbatim>\<open>s.strip()\<close>: leading and trailing whitespace removed.\<close>

definition strip :: "string \<Rightarrow> string" where
  "strip s = rev (dropWhile isspace_chr (rev (dropWhile isspace_chr s)))"

text \<open>\<^verbatim>\<open>s.split(sep)\<close> for a one-character separator: never the empty list.\<close>

fun str_split :: "char \<Rightarrow> string \<Rightarrow> string list" where
  "str_split sep [] = [[]]"
| "str_split sep (c # cs) =
     (if c = sep then [] # str_split sep cs
      else (case str_split sep cs of
              [] \<Rightarrow> [[c]]
            | t # ts \<Rightarrow> (c # t) # ts))"

text \<open>\<^verbatim>\<open>sub in s\<close> on strings.\<close>

fun startswith :: "string \<Rightarrow> string \<Rightarrow> bool" where
  "startswith [] s = True"
| "startswith (p # ps) [] = False"
| "startswith (p # ps) (c # cs) = (p = c \<and> startswith ps cs)"

fun str_contains :: "string \<Rightarrow> string \<Rightarrow> bool" where
  "str_contains sub [] = startswith sub []"
| "str_contains sub (c # cs) = (startswith sub (c # cs) \<or> str_contains sub cs)"

text \<open>
  \<^verbatim>\<open>str(x)\<close> of an integer: its decimal digits, after a minus sign when negative.
\<close>

fun str_nat :: "nat \<Rightarrow> string" where
  "str_nat n =
     (if n < 10 then [char_of (48 + n)]
      else str_nat (n div 10) @ [char_of (48 + n mod 10)])"

declare str_nat.simps [simp del]

definition str_int :: "int \<Rightarrow> string" where
  "str_int x = (if x < 0 then CHR ''-'' # str_nat (nat (- x)) else str_nat (nat x))"

text \<open>
  \<^verbatim>\<open>int(s)\<close> of a string, base 10, as CPython 2.7 reads it: whitespace, an optional
  sign, whitespace, at least one decimal digit, whitespace, and nothing else; anything
  else raises \<^verbatim>\<open>ValueError\<close>.
\<close>

definition digits_val :: "string \<Rightarrow> nat" where
  "digits_val ds = foldl (\<lambda>a c. 10 * a + ((of_char c :: nat) - 48)) 0 ds"

definition int_str :: "string \<Rightarrow> error + int" where
  "int_str s =
     (let t = dropWhile isspace_chr s;
          neg = (t \<noteq> [] \<and> hd t = CHR ''-'');
          u = (if t \<noteq> [] \<and> (hd t = CHR ''-'' \<or> hd t = CHR ''+'') then tl t else t);
          v = dropWhile isspace_chr u;
          ds = takeWhile isdigit_chr v;
          rest = dropWhile isdigit_chr v
      in if ds = [] \<or> dropWhile isspace_chr rest \<noteq> [] then Inl ValueError
         else Inr (if neg then - int (digits_val ds) else int (digits_val ds)))"

text \<open>A list comprehension or \<^verbatim>\<open>map\<close> whose body can raise: the first exception wins.\<close>

fun mapM :: "('a \<Rightarrow> error + 'b) \<Rightarrow> 'a list \<Rightarrow> error + 'b list" where
  "mapM f [] = Inr []"
| "mapM f (x # xs) =
     (case f x of
        Inl e \<Rightarrow> Inl e
      | Inr y \<Rightarrow> (case mapM f xs of Inl e \<Rightarrow> Inl e | Inr ys \<Rightarrow> Inr (y # ys)))"

text \<open>\<^verbatim>\<open>dict(zip(ks, vs))\<close>: a later pair replaces an earlier one with the same key.\<close>

definition dict_zip :: "'k list \<Rightarrow> 'v list \<Rightarrow> ('k \<rightharpoonup> 'v)" where
  "dict_zip ks vs = Map.empty (ks [\<mapsto>] vs)"

text \<open>\<^verbatim>\<open>d[k]\<close> on a dictionary.\<close>

definition dict_get :: "('k \<rightharpoonup> 'v) \<Rightarrow> 'k \<Rightarrow> error + 'v" where
  "dict_get d k = (case d k of None \<Rightarrow> Inl KeyError | Some v \<Rightarrow> Inr v)"

section \<open>The FIGI check digit\<close>

text \<open>
  \<^verbatim>\<open>figiAlphaNumMap = dict(zip([chr(v) for v in range(65,65+26)], range(10, 36)))\<close>
\<close>

definition figiAlphaNumMap :: "char \<rightharpoonup> int" where
  "figiAlphaNumMap = dict_zip (map char_of [65 ..< 65 + 26 :: nat]) (map int [10 ..< 36])"

text \<open>\<^verbatim>\<open>digitSum(x) = sum(map(int, str(x)))\<close>\<close>

definition digitSum :: "int \<Rightarrow> error + int" where
  "digitSum x =
     (case mapM (\<lambda>c. int_str [c]) (str_int x) of
        Inl e \<Rightarrow> Inl e
      | Inr ds \<Rightarrow> Inr (sum_list ds))"

definition checkFIGIDigit :: "string \<Rightarrow> error + bool" where
  "checkFIGIDigit figi =
     (if length figi \<noteq> 12 then Inr False
      else if \<not> isalnum figi then Inr False
      else
        let checkDigit = figi ! (length figi - 1);
            figi11 = (if length figi = 12 then butlast figi else figi)
        in case mapM (\<lambda>ch. if isalpha [ch] then dict_get figiAlphaNumMap ch
                             else int_str [ch]) figi11 of
             Inl e \<Rightarrow> Inl e
           | Inr xx \<Rightarrow>
               let yy = map (\<lambda>i. if i mod 2 = 1 then xx ! i * 2 else xx ! i) [0 ..< length xx]
               in (case mapM digitSum yy of
                     Inl e \<Rightarrow> Inl e
                   | Inr ds \<Rightarrow>
                       let zz = sum_list ds;
                           tmp = (10 - zz) mod 10
                       in Inr (str_int tmp = [checkDigit])))"

text \<open>\<^verbatim>\<open>xs[i]\<close> for an index \<open>i \<ge> 0\<close>, and \<^verbatim>\<open>xs[-1]\<close>.\<close>

definition list_get :: "'a list \<Rightarrow> nat \<Rightarrow> error + 'a" where
  "list_get xs i = (if i < length xs then Inr (xs ! i) else Inl IndexError)"

definition list_get_last :: "'a list \<Rightarrow> error + 'a" where
  "list_get_last xs = (if xs = [] then Inl IndexError else Inr (last xs))"

section \<open>The class BbgDataFile\<close>

subsection \<open>parseFileText\<close>

text \<open>
  The local variables of \<^verbatim>\<open>parseFileText\<close> (\<open>fields_lst\<close> is the source's
  \<^verbatim>\<open>fields\<close>), and what it has printed so far. A row is
  a dictionary from field name to value. \<open>state\<close> is the source's integer: \<open>-1\<close> before
  \<^verbatim>\<open>START-OF-FILE\<close>, \<open>0\<close> between sections, \<open>1\<close> in the fields, \<open>2\<close> in the data rows.
\<close>

type_synonym row = "string \<rightharpoonup> string"

record locals =
  fields_lst :: "string list"
  fieldsLoc :: "string \<rightharpoonup> nat"
  dataList :: "row list"
  dataDict :: "string \<rightharpoonup> row"
  state :: int
  stdout :: "string list"

definition initial :: locals where
  "initial = \<lparr>fields_lst = [], fieldsLoc = Map.empty, dataList = [], dataDict = Map.empty,
              state = - 1, stdout = []\<rparr>"

text \<open>The three exceptions \<^verbatim>\<open>parseFileText\<close> raises itself.\<close>

definition InsufficientValues :: error where
  "InsufficientValues = Exception ''Insufficient values found in row''"

definition MissingFileStart :: error where
  "MissingFileStart = Exception ''File Structure Invalid. Could not find START-OF-FILE''"

definition UnterminatedFile :: error where
  "UnterminatedFile = Exception ''File Structure Invalid. File does not end gracefully''"

text \<open>\<^verbatim>\<open>int(line.split('=')[1])\<close>\<close>

definition record_count :: "string \<Rightarrow> error + int" where
  "record_count line =
     (case list_get (str_split (CHR ''='') line) 1 of
        Inl e \<Rightarrow> Inl e
      | Inr s \<Rightarrow> int_str s)"

text \<open>The block under \<^verbatim>\<open>if state == 0\<close>; every branch of it ends in \<^verbatim>\<open>continue\<close>.\<close>

definition state0_block :: "locals \<Rightarrow> string \<Rightarrow> error + locals" where
  "state0_block st line =
     (if line = ''START-OF-FIELDS'' then Inr (st\<lparr>state := 1\<rparr>)
      else if line = ''START-OF-DATA'' then Inr (st\<lparr>state := 2\<rparr>)
      else if str_contains ''DATARECORD'' line then
        (case record_count line of
           Inl e \<Rightarrow> Inl e
         | Inr nrow \<Rightarrow>
             if nrow \<noteq> int (length (dataList st))
             then Inr (st\<lparr>stdout := stdout st @
                    [''WARNING: Not all data rows loaded successfully from bbg file'']\<rparr>)
             else Inr st)
      else Inr st)"

text \<open>
  \<^verbatim>\<open>data = line.split('|')[3:]\<close> and \<^verbatim>\<open>datarow = data[0:(len(data)-1)]\<close>. When
  \<open>data\<close> is empty the slice is \<^verbatim>\<open>data[0:-1]\<close>, empty as well.
\<close>

definition datarow_of :: "string \<Rightarrow> string list" where
  "datarow_of line =
     (let data = drop 3 (str_split (CHR ''|'') line)
      in take (length data - 1) data)"

text \<open>The \<^verbatim>\<open>else\<close> branch under \<^verbatim>\<open>if state == 2\<close>: one data row.\<close>

definition state2_row :: "locals \<Rightarrow> string \<Rightarrow> error + locals" where
  "state2_row st line =
     (let datarow = datarow_of line
      in if length datarow \<noteq> length (fields_lst st) then Inl InsufficientValues
         else case list_get_last datarow of
                Inl e \<Rightarrow> Inl e
              | Inr figi \<Rightarrow>
                  (case checkFIGIDigit figi of
                     Inl e \<Rightarrow> Inl e
                   | Inr checkDigitValid \<Rightarrow>
                       if \<not> checkDigitValid
                       then Inr (st\<lparr>stdout := stdout st @
                              [''FIGI check digit invalid, skipping line for ID_BB_GLOBAL: '' @ figi]\<rparr>)
                       else let datarow' = dict_zip (fields_lst st) datarow
                            in Inr (st\<lparr>dataList := dataList st @ [datarow'],
                                        dataDict := (dataDict st)(figi \<mapsto> datarow')\<rparr>)))"

text \<open>
  The body of \<^verbatim>\<open>for line in lines\<close>. After \<^verbatim>\<open>fields.append(line)\<close> control reaches the
  test \<^verbatim>\<open>state == 2\<close>, which is false there; and with \<open>state\<close> still \<open>-1\<close> every test of
  the body is false, so the line is passed over.
\<close>

definition loop_body :: "locals \<Rightarrow> string \<Rightarrow> error + locals" where
  "loop_body st raw =
     (let line = strip raw
      in if state st = - 1 \<and> line = ''START-OF-FILE'' then Inr (st\<lparr>state := 0\<rparr>)
         else if state st = 0 then state0_block st line
         else if state st = 1 then
           (if line = ''END-OF-FIELDS''
            then Inr (st\<lparr>fieldsLoc := dict_zip (fields_lst st) [0 ..< length (fields_lst st)],
                         state := 0\<rparr>)
            else Inr (st\<lparr>fields_lst := fields_lst st @ [line]\<rparr>))
         else if state st = 2 then
           (if line = ''END-OF-DATA'' then Inr (st\<lparr>state := 0\<rparr>)
            else state2_row st line)
         else Inr st)"

fun run_lines :: "locals \<Rightarrow> string list \<Rightarrow> error + locals" where
  "run_lines st [] = Inr st"
| "run_lines st (l # ls) =
     (case loop_body st l of
        Inl e \<Rightarrow> Inl e
      | Inr st' \<Rightarrow> run_lines st' ls)"

definition parseFileText :: "string list \<Rightarrow> error + (string list \<times> row list)" where
  "parseFileText lines =
     (case run_lines initial lines of
        Inl e \<Rightarrow> Inl e
      | Inr st \<Rightarrow>
          if state st = - 1 then Inl MissingFileStart
          else if state st \<noteq> 0 then Inl UnterminatedFile
          else Inr (fields_lst st, dataList st))"

subsection \<open>The object\<close>

text \<open>
  \<^verbatim>\<open>__init__\<close> reads the lines of the file and keeps what \<^verbatim>\<open>parseFileText\<close> returns;
  the lines are the argument here. The attributes are \<^verbatim>\<open>self.fields\<close>,
  \<^verbatim>\<open>self.dataList\<close> and \<^verbatim>\<open>self.nrows\<close>.
\<close>

record BbgDataFile =
  self_fields :: "string list"
  self_dataList :: "row list"
  self_nrows :: int

definition BbgDataFile_init :: "string list \<Rightarrow> error + BbgDataFile" where
  "BbgDataFile_init lines =
     (case parseFileText lines of
        Inl e \<Rightarrow> Inl e
      | Inr (fs, dl) \<Rightarrow>
          Inr \<lparr>self_fields = fs, self_dataList = dl, self_nrows = int (length dl)\<rparr>)"

text \<open>
  \<^verbatim>\<open>getDataForFields\<close>. When a column is not a field, the argument of \<^verbatim>\<open>Exception\<close> is
  \<^verbatim>\<open>'Data not available ...' + [...]\<close>, a string plus a list: evaluating it raises
  \<^verbatim>\<open>TypeError\<close>, and the \<^verbatim>\<open>Exception\<close> is never built.
\<close>

definition getDataForFields :: "BbgDataFile \<Rightarrow> string list \<Rightarrow> error + string list list" where
  "getDataForFields self columns =
     (let goodFields = map (\<lambda>f. f \<in> set (self_fields self)) columns
      in if \<not> list_all (\<lambda>b. b) goodFields then Inl TypeError
         else mapM (\<lambda>row. mapM (\<lambda>k. dict_get row k) columns) (self_dataList self))"

section \<open>The lines of a well-formed file\<close>

text \<open>
  Words for the hypotheses of the theorems below, each read off the loop body: the row
  that \<^verbatim>\<open>dict(zip(fields, datarow))\<close> builds from a line; a line of the data section
  that passes the count test, has an identifier and on which \<open>checkFIGIDigit\<close> returns
  \<open>valid\<close>; a line of the fields section other than its end marker; and a line outside
  the sections that opens no section and on which a \<^verbatim>\<open>DATARECORD\<close> count, if any, can be
  read.
\<close>

definition row_of :: "string list \<Rightarrow> string \<Rightarrow> row" where
  "row_of fs raw = dict_zip fs (datarow_of (strip raw))"

definition data_line :: "bool \<Rightarrow> string list \<Rightarrow> string \<Rightarrow> bool" where
  "data_line valid fs raw =
     (strip raw \<noteq> ''END-OF-DATA''
      \<and> length (datarow_of (strip raw)) = length fs
      \<and> datarow_of (strip raw) \<noteq> []
      \<and> checkFIGIDigit (last (datarow_of (strip raw))) = Inr valid)"

definition field_line :: "string \<Rightarrow> bool" where
  "field_line raw = (strip raw \<noteq> ''END-OF-FIELDS'')"

definition preamble_line :: "string \<Rightarrow> bool" where
  "preamble_line raw =
     (strip raw \<noteq> ''START-OF-FIELDS'' \<and> strip raw \<noteq> ''START-OF-DATA''
      \<and> (if str_contains ''DATARECORD'' (strip raw)
          then (case record_count (strip raw) of Inl e \<Rightarrow> False | Inr n \<Rightarrow> True)
          else True))"

section \<open>The check digit as the specification words it\<close>

text \<open>
  A digit stands for itself and a letter \<open>A\<close> to \<open>Z\<close> for 10 to 35; the value at every
  odd index (from 0) is doubled; the decimal digits of every resulting number are added
  into a total \<open>T\<close>; the check digit is \<open>(10 - T mod 10) mod 10\<close>.
\<close>

definition spec_char_value :: "char \<Rightarrow> nat" where
  "spec_char_value c = (if isdigit_chr c then of_char c - 48 else of_char c - 55)"

fun spec_digit_sum :: "nat \<Rightarrow> nat" where
  "spec_digit_sum n = (if n < 10 then n else spec_digit_sum (n div 10) + n mod 10)"

declare spec_digit_sum.simps [simp del]

definition spec_grand_total :: "string \<Rightarrow> nat" where
  "spec_grand_total body =
     sum_list (map (\<lambda>i. spec_digit_sum (if odd i then 2 * spec_char_value (body ! i)
                                          else spec_char_value (body ! i)))
                   [0 ..< length body])"

definition spec_check_digit :: "string \<Rightarrow> nat" where
  "spec_check_digit body = (10 - spec_grand_total body mod 10) mod 10"

section \<open>Properties of the check digit\<close>

lemma figi_map_table:
  "list_all (\<lambda>n. figiAlphaNumMap (char_of n) = Some (int n - 55)) [65 ..< 91]"
  by code_simp

lemma figiAlphaNumMap_upper:
  assumes "isupper_chr c"
  shows "figiAlphaNumMap c = Some (int (of_char c) - 55)"
proof -
  have "(of_char c :: nat) \<in> {65 ..< 91}"
    using assms by (simp add: isupper_chr_def)
  then have "(of_char c :: nat) \<in> set [65 ..< 91]"
    by (simp only: set_upt)
  with figi_map_table
  have "figiAlphaNumMap (char_of (of_char c :: nat)) = Some (int (of_char c) - 55)"
    unfolding list_all_iff by blast
  then show ?thesis by simp
qed

lemma int_str_digit:
  assumes "isdigit_chr c"
  shows "int_str [c] = Inr (int (of_char c) - 48)"
proof -
  have ns: "\<not> isspace_chr c" "c \<noteq> CHR ''-''" "c \<noteq> CHR ''+''"
    using assms by (auto simp: isdigit_chr_def isspace_chr_def)
  show ?thesis
    using assms ns by (simp add: int_str_def digits_val_def Let_def isdigit_chr_def)
qed

lemma mapM_all_Inr:
  "(\<And>x. x \<in> set xs \<Longrightarrow> f x = Inr (g x)) \<Longrightarrow> mapM f xs = Inr (map g xs)"
  by (induction xs) auto

lemma digit_chars_str_nat:
  "mapM (\<lambda>c. int_str [c]) (str_nat n) = Inr (map (\<lambda>c. int (of_char c) - 48) (str_nat n))"
proof (rule mapM_all_Inr)
  fix x assume "x \<in> set (str_nat n)"
  then have "isdigit_chr x"
  proof (induction n rule: str_nat.induct)
    case (1 n)
    then show ?case
      by (subst (asm) str_nat.simps) (auto simp: isdigit_chr_def split: if_splits)
  qed
  then show "int_str [x] = Inr (int (of_char x) - 48)" by (rule int_str_digit)
qed

lemma sum_digits_str_nat:
  "sum_list (map (\<lambda>c. int (of_char c) - 48) (str_nat n)) = int (spec_digit_sum n)"
proof (induction n rule: str_nat.induct)
  case (1 n)
  show ?case
  proof (cases "n < 10")
    case True
    then show ?thesis
      by (subst str_nat.simps, subst spec_digit_sum.simps) simp
  next
    case False
    with 1 show ?thesis
      by (subst str_nat.simps, subst spec_digit_sum.simps) simp
  qed
qed

lemma digitSum_nonneg:
  "0 \<le> x \<Longrightarrow> digitSum x = Inr (int (spec_digit_sum (nat x)))"
  by (simp add: digitSum_def str_int_def digit_chars_str_nat sum_digits_str_nat)

lemma str_int_digit: "k < 10 \<Longrightarrow> str_int (int k) = [char_of (48 + k)]"
  by (simp add: str_int_def str_nat.simps)

lemma sum_list_map_int: "sum_list (map (\<lambda>i. int (f i)) xs) = int (sum_list (map f xs))"
  by (induction xs) simp_all

lemma isalnum_chr_cases: "isdigit_chr c \<or> isupper_chr c \<Longrightarrow> isalnum_chr c"
  by (auto simp: isalnum_chr_def isalpha_chr_def)

lemma body_value:
  assumes "isdigit_chr c \<or> isupper_chr c"
  shows "(if isalpha [c] then dict_get figiAlphaNumMap c else int_str [c])
         = Inr (int (spec_char_value c))"
proof (cases "isdigit_chr c")
  case True
  then have "\<not> isalpha [c]"
    by (auto simp: isalpha_def isalpha_chr_def isdigit_chr_def isupper_chr_def islower_chr_def)
  with True show ?thesis
    by (simp add: int_str_digit spec_char_value_def isdigit_chr_def)
next
  case False
  with assms have u: "isupper_chr c" by simp
  then have "isalpha [c]" by (simp add: isalpha_def isalpha_chr_def)
  with u False show ?thesis
    by (simp add: dict_get_def figiAlphaNumMap_upper spec_char_value_def isupper_chr_def)
qed

lemma check_digit_int:
  "(10 - int T) mod 10 = int ((10 - T mod 10) mod 10)"
proof -
  have le: "T mod 10 \<le> 10" by simp
  have "int ((10 - T mod 10) mod 10) = (10 - int (T mod 10)) mod 10"
    using le by (simp only: zmod_int of_nat_diff of_nat_numeral)
  also have "\<dots> = (10 - int T mod 10) mod 10"
    by (simp only: zmod_int of_nat_numeral)
  also have "\<dots> = (10 - int T) mod 10"
    by (rule mod_diff_right_eq)
  finally show ?thesis by (rule sym)
qed

lemma grand_total_code:
  assumes "\<And>c. c \<in> set body \<Longrightarrow> isdigit_chr c \<or> isupper_chr c"
  shows "\<exists>xx ds.
           mapM (\<lambda>ch. if isalpha [ch] then dict_get figiAlphaNumMap ch else int_str [ch]) body
             = Inr xx
         \<and> mapM digitSum (map (\<lambda>i. if i mod 2 = 1 then xx ! i * 2 else xx ! i) [0 ..< length xx])
             = Inr ds
         \<and> sum_list ds = int (spec_grand_total body)"
proof -
  define xx where "xx = map (\<lambda>c. int (spec_char_value c)) body"
  define yy where "yy = map (\<lambda>i. if i mod 2 = 1 then xx ! i * 2 else xx ! i) [0 ..< length xx]"
  define ds where "ds = map (\<lambda>y. int (spec_digit_sum (nat y))) yy"
  have 1: "mapM (\<lambda>ch. if isalpha [ch] then dict_get figiAlphaNumMap ch else int_str [ch]) body
             = Inr xx"
    unfolding xx_def by (rule mapM_all_Inr) (simp add: body_value assms)
  have nonneg: "0 \<le> y" if "y \<in> set yy" for y
    using that by (auto simp: yy_def xx_def)
  have 2: "mapM digitSum yy = Inr ds"
    unfolding ds_def by (rule mapM_all_Inr) (simp add: digitSum_nonneg nonneg)
  have "ds = map (\<lambda>i. int (spec_digit_sum (if odd i then 2 * spec_char_value (body ! i)
                                                else spec_char_value (body ! i))))
                 [0 ..< length body]"
    by (auto simp: ds_def yy_def xx_def odd_iff_mod_2_eq_one nat_mult_distrib mult.commute)
  then have 3: "sum_list ds = int (spec_grand_total body)"
    by (simp only: spec_grand_total_def sum_list_map_int)
  from 1 2 3 show ?thesis unfolding yy_def by blast
qed

lemma checkFIGIDigit_spec:
  assumes len: "length figi = 12"
    and chars: "\<forall>c \<in> set figi. isdigit_chr c \<or> isupper_chr c"
  shows "checkFIGIDigit figi
         = Inr (last figi = char_of (48 + spec_check_digit (butlast figi)))"
proof -
  have alnum: "isalnum figi"
    using len chars by (auto simp: isalnum_def list_all_iff isalnum_chr_cases)
  have "\<And>c. c \<in> set (butlast figi) \<Longrightarrow> isdigit_chr c \<or> isupper_chr c"
    using chars by (auto dest: in_set_butlastD)
  from grand_total_code [OF this] obtain xx ds where
    xx: "mapM (\<lambda>ch. if isalpha [ch] then dict_get figiAlphaNumMap ch else int_str [ch])
           (butlast figi) = Inr xx"
    and ds: "mapM digitSum (map (\<lambda>i. if i mod 2 = 1 then xx ! i * 2 else xx ! i)
           [0 ..< length xx]) = Inr ds"
    and total: "sum_list ds = int (spec_grand_total (butlast figi))"
    by blast
  have tmp: "(10 - sum_list ds) mod 10 = int (spec_check_digit (butlast figi))"
    unfolding total spec_check_digit_def by (rule check_digit_int)
  have str: "str_int ((10 - sum_list ds) mod 10)
             = [char_of (48 + spec_check_digit (butlast figi))]"
  proof -
    have "spec_check_digit (butlast figi) < 10"
      by (simp add: spec_check_digit_def)
    then show ?thesis
      unfolding tmp by (rule str_int_digit)
  qed
  have "figi \<noteq> []" using len by auto
  then have lst: "figi ! (length figi - 1) = last figi"
    by (rule last_conv_nth [symmetric])
  have "checkFIGIDigit figi
        = Inr (str_int ((10 - sum_list ds) mod 10) = [figi ! (length figi - 1)])"
    using len alnum xx ds by (simp add: checkFIGIDigit_def Let_def)
  then show ?thesis
    unfolding str lst by auto
qed

section \<open>The loop of parseFileText\<close>

lemma run_lines_step: "loop_body st l = Inr st' \<Longrightarrow> run_lines st (l # ls) = run_lines st' ls"
  by simp

lemma run_lines_append:
  "run_lines st xs = Inr st' \<Longrightarrow> run_lines st (xs @ ys) = run_lines st' ys"
  by (induction xs arbitrary: st) (auto split: sum.splits)

lemma run_lines_fails:
  "run_lines st xs = Inr st' \<Longrightarrow> loop_body st' l = Inl e \<Longrightarrow> run_lines st (xs @ l # ys) = Inl e"
  by (simp add: run_lines_append)

lemma neutral_step:
  assumes "state st = 0" and "preamble_line l"
  shows "\<exists>st'. loop_body st l = Inr st' \<and> state st' = 0
               \<and> fields_lst st' = fields_lst st \<and> dataList st' = dataList st"
proof (cases "str_contains ''DATARECORD'' (strip l)")
  case False
  with assms show ?thesis
    by (simp add: loop_body_def state0_block_def preamble_line_def Let_def)
next
  case True
  with assms obtain n where "record_count (strip l) = Inr n"
    by (auto simp: preamble_line_def split: sum.splits)
  with True assms show ?thesis
    by (simp add: loop_body_def state0_block_def preamble_line_def Let_def)
qed

lemma neutral_segment:
  assumes "state st = 0" and "list_all preamble_line ls"
  shows "\<exists>st'. run_lines st ls = Inr st' \<and> state st' = 0
               \<and> fields_lst st' = fields_lst st \<and> dataList st' = dataList st"
  using assms
proof (induction ls arbitrary: st)
  case Nil
  then show ?case by simp
next
  case (Cons l ls)
  from Cons.prems have "preamble_line l" by simp
  from neutral_step [OF Cons.prems(1) this] obtain st1 where
    1: "loop_body st l = Inr st1" and 2: "state st1 = 0"
    and 3: "fields_lst st1 = fields_lst st" and 4: "dataList st1 = dataList st"
    by blast
  from Cons.prems have "list_all preamble_line ls" by simp
  from Cons.IH [OF 2 this] 1 3 4 show ?case by auto
qed

lemma fields_segment:
  assumes "state st = 1" and "list_all field_line ls"
  shows "\<exists>st'. run_lines st ls = Inr st' \<and> state st' = 1
               \<and> fields_lst st' = fields_lst st @ map strip ls \<and> dataList st' = dataList st"
  using assms
proof (induction ls arbitrary: st)
  case Nil
  then show ?case by simp
next
  case (Cons l ls)
  let ?st1 = "st\<lparr>fields_lst := fields_lst st @ [strip l]\<rparr>"
  from Cons.prems have 1: "loop_body st l = Inr ?st1"
    by (simp add: loop_body_def field_line_def Let_def)
  have 2: "state ?st1 = 1" using Cons.prems by simp
  from Cons.prems have "list_all field_line ls" by simp
  from Cons.IH [OF 2 this] 1 show ?case by auto
qed

lemma data_row_accepted:
  assumes "state st = 2" and "data_line True (fields_lst st) l"
  shows "\<exists>st'. loop_body st l = Inr st' \<and> state st' = 2 \<and> fields_lst st' = fields_lst st
               \<and> dataList st' = dataList st @ [row_of (fields_lst st) l]"
  using assms
  by (simp add: loop_body_def state2_row_def data_line_def list_get_last_def row_of_def Let_def)

lemma data_row_rejected:
  assumes "state st = 2" and "data_line False (fields_lst st) l"
  shows "\<exists>st'. loop_body st l = Inr st' \<and> state st' = 2 \<and> fields_lst st' = fields_lst st
               \<and> dataList st' = dataList st"
  using assms
  by (simp add: loop_body_def state2_row_def data_line_def list_get_last_def Let_def)

lemma data_row_raises:
  assumes "state st = 2" and "strip l \<noteq> ''END-OF-DATA''"
    and "length (datarow_of (strip l)) = length (fields_lst st)"
    and "datarow_of (strip l) \<noteq> []"
    and "checkFIGIDigit (last (datarow_of (strip l))) = Inl e"
  shows "loop_body st l = Inl e"
  using assms by (simp add: loop_body_def state2_row_def list_get_last_def)

lemma data_line_exclusive: "data_line False fs l \<Longrightarrow> \<not> data_line True fs l"
  by (simp add: data_line_def)

lemma data_segment:
  assumes "state st = 2"
    and "list_all (\<lambda>l. data_line True (fields_lst st) l \<or> data_line False (fields_lst st) l) ls"
  shows "\<exists>st'. run_lines st ls = Inr st' \<and> state st' = 2 \<and> fields_lst st' = fields_lst st
               \<and> dataList st' = dataList st
                    @ map (row_of (fields_lst st)) (filter (data_line True (fields_lst st)) ls)"
  using assms
proof (induction ls arbitrary: st)
  case Nil
  then show ?case by simp
next
  case (Cons l ls)
  from Cons.prems have
    l: "data_line True (fields_lst st) l \<or> data_line False (fields_lst st) l"
    and ls: "list_all (\<lambda>l. data_line True (fields_lst st) l \<or> data_line False (fields_lst st) l) ls"
    by simp_all
  from l show ?case
  proof
    assume acc: "data_line True (fields_lst st) l"
    from data_row_accepted [OF Cons.prems(1) acc] obtain st1 where
      1: "loop_body st l = Inr st1" and 2: "state st1 = 2"
      and 3: "fields_lst st1 = fields_lst st"
      and 4: "dataList st1 = dataList st @ [row_of (fields_lst st) l]"
      by blast
    from ls 3 have "list_all (\<lambda>l. data_line True (fields_lst st1) l \<or> data_line False (fields_lst st1) l) ls"
      by simp
    from Cons.IH [OF 2 this] 1 3 4 acc show ?thesis by auto
  next
    assume rej: "data_line False (fields_lst st) l"
    from data_row_rejected [OF Cons.prems(1) rej] obtain st1 where
      1: "loop_body st l = Inr st1" and 2: "state st1 = 2"
      and 3: "fields_lst st1 = fields_lst st"
      and 4: "dataList st1 = dataList st"
      by blast
    from ls 3 have "list_all (\<lambda>l. data_line True (fields_lst st1) l \<or> data_line False (fields_lst st1) l) ls"
      by simp
    from Cons.IH [OF 2 this] 1 3 4 data_line_exclusive [OF rej] show ?thesis by auto
  qed
qed

lemma start_step:
  "strip l = ''START-OF-FILE'' \<Longrightarrow> loop_body initial l = Inr (initial\<lparr>state := 0\<rparr>)"
  by (simp add: loop_body_def initial_def)

lemma open_fields_step:
  "state st = 0 \<Longrightarrow> strip l = ''START-OF-FIELDS'' \<Longrightarrow> loop_body st l = Inr (st\<lparr>state := 1\<rparr>)"
  by (simp add: loop_body_def state0_block_def)

lemma close_fields_step:
  "state st = 1 \<Longrightarrow> strip l = ''END-OF-FIELDS'' \<Longrightarrow>
   loop_body st l
   = Inr (st\<lparr>fieldsLoc := dict_zip (fields_lst st) [0 ..< length (fields_lst st)], state := 0\<rparr>)"
  by (simp add: loop_body_def)

lemma open_data_step:
  "state st = 0 \<Longrightarrow> strip l = ''START-OF-DATA'' \<Longrightarrow> loop_body st l = Inr (st\<lparr>state := 2\<rparr>)"
  by (simp add: loop_body_def state0_block_def)

lemma close_data_step:
  "state st = 2 \<Longrightarrow> strip l = ''END-OF-DATA'' \<Longrightarrow> loop_body st l = Inr (st\<lparr>state := 0\<rparr>)"
  by (simp add: loop_body_def)

lemma fields_section:
  assumes l0: "strip l0 = ''START-OF-FILE''"
    and pre: "list_all preamble_line pre"
    and l1: "strip l1 = ''START-OF-FIELDS''"
    and fs: "list_all field_line fs"
    and l2: "strip l2 = ''END-OF-FIELDS''"
    and mid: "list_all preamble_line mid"
  shows "\<exists>st. run_lines initial (l0 # pre @ l1 # fs @ l2 # mid) = Inr st \<and> state st = 0
              \<and> fields_lst st = map strip fs \<and> dataList st = []"
proof -
  let ?s0 = "initial\<lparr>state := 0\<rparr>"
  have a: "run_lines initial (l0 # pre @ l1 # fs @ l2 # mid)
           = run_lines ?s0 (pre @ l1 # fs @ l2 # mid)"
    using start_step [OF l0] by simp
  have "state ?s0 = 0" by simp
  from neutral_segment [OF this pre] obtain s1 where
    s1: "run_lines ?s0 pre = Inr s1" "state s1 = 0" "fields_lst s1 = []" "dataList s1 = []"
    by (auto simp: initial_def)
  have b: "run_lines ?s0 (pre @ l1 # fs @ l2 # mid) = run_lines s1 (l1 # fs @ l2 # mid)"
    by (rule run_lines_append [OF s1(1)])
  let ?s2 = "s1\<lparr>state := 1\<rparr>"
  have c: "run_lines s1 (l1 # fs @ l2 # mid) = run_lines ?s2 (fs @ l2 # mid)"
    using open_fields_step [OF s1(2) l1] by simp
  have "state ?s2 = 1" by simp
  from fields_segment [OF this fs] obtain s3 where
    s3: "run_lines ?s2 fs = Inr s3" "state s3 = 1" "fields_lst s3 = map strip fs"
      "dataList s3 = []"
    using s1 by auto
  have d: "run_lines ?s2 (fs @ l2 # mid) = run_lines s3 (l2 # mid)"
    by (rule run_lines_append [OF s3(1)])
  let ?s4 = "s3\<lparr>fieldsLoc := dict_zip (fields_lst s3) [0 ..< length (fields_lst s3)], state := 0\<rparr>"
  have e: "run_lines s3 (l2 # mid) = run_lines ?s4 mid"
    using close_fields_step [OF s3(2) l2] by simp
  have "state ?s4 = 0" by simp
  from neutral_segment [OF this mid] obtain s5 where
    s5: "run_lines ?s4 mid = Inr s5" "state s5 = 0" "fields_lst s5 = map strip fs"
      "dataList s5 = []"
    using s3 by auto
  from a b c d e s5 show ?thesis by simp
qed

lemma data_section:
  assumes st: "state st = 0"
    and l3: "strip l3 = ''START-OF-DATA''"
    and rows: "list_all (\<lambda>l. data_line True (fields_lst st) l \<or> data_line False (fields_lst st) l) rows"
    and l4: "strip l4 = ''END-OF-DATA''"
    and post: "list_all preamble_line post"
  shows "\<exists>st'. run_lines st (l3 # rows @ l4 # post) = Inr st' \<and> state st' = 0
               \<and> fields_lst st' = fields_lst st
               \<and> dataList st' = dataList st
                    @ map (row_of (fields_lst st)) (filter (data_line True (fields_lst st)) rows)"
proof -
  let ?s1 = "st\<lparr>state := 2\<rparr>"
  have a: "run_lines st (l3 # rows @ l4 # post) = run_lines ?s1 (rows @ l4 # post)"
    using open_data_step [OF st l3] by simp
  have "state ?s1 = 2" by simp
  moreover from rows have
    "list_all (\<lambda>l. data_line True (fields_lst ?s1) l \<or> data_line False (fields_lst ?s1) l) rows"
    by simp
  ultimately obtain s2 where
    s2: "run_lines ?s1 rows = Inr s2" "state s2 = 2" "fields_lst s2 = fields_lst st"
      "dataList s2 = dataList st
         @ map (row_of (fields_lst st)) (filter (data_line True (fields_lst st)) rows)"
    using data_segment [of ?s1 rows] by auto
  have b: "run_lines ?s1 (rows @ l4 # post) = run_lines s2 (l4 # post)"
    by (rule run_lines_append [OF s2(1)])
  let ?s3 = "s2\<lparr>state := 0\<rparr>"
  have c: "run_lines s2 (l4 # post) = run_lines ?s3 post"
    using close_data_step [OF s2(2) l4] by simp
  have "state ?s3 = 0" by simp
  from neutral_segment [OF this post] obtain s4 where
    s4: "run_lines ?s3 post = Inr s4" "state s4 = 0" "fields_lst s4 = fields_lst st"
      "dataList s4 = dataList st
         @ map (row_of (fields_lst st)) (filter (data_line True (fields_lst st)) rows)"
    using s2 by auto
  from a b c s4 show ?thesis by simp
qed

lemma whole_file:
  assumes l0: "strip l0 = ''START-OF-FILE''"
    and pre: "list_all preamble_line pre"
    and l1: "strip l1 = ''START-OF-FIELDS''"
    and fs: "list_all field_line fs"
    and l2: "strip l2 = ''END-OF-FIELDS''"
    and mid: "list_all preamble_line mid"
    and l3: "strip l3 = ''START-OF-DATA''"
    and rows: "list_all (\<lambda>l. data_line True (map strip fs) l \<or> data_line False (map strip fs) l) rows"
    and l4: "strip l4 = ''END-OF-DATA''"
    and post: "list_all preamble_line post"
  shows "parseFileText (l0 # pre @ l1 # fs @ l2 # mid @ l3 # rows @ l4 # post)
         = Inr (map strip fs,
                map (row_of (map strip fs)) (filter (data_line True (map strip fs)) rows))"
proof -
  from fields_section [OF l0 pre l1 fs l2 mid] obtain s1 where
    s1: "run_lines initial (l0 # pre @ l1 # fs @ l2 # mid) = Inr s1" "state s1 = 0"
      "fields_lst s1 = map strip fs" "dataList s1 = []"
    by blast
  from rows s1(3) have
    "list_all (\<lambda>l. data_line True (fields_lst s1) l \<or> data_line False (fields_lst s1) l) rows"
    by simp
  from data_section [OF s1(2) l3 this l4 post] obtain s2 where
    s2: "run_lines s1 (l3 # rows @ l4 # post) = Inr s2" "state s2 = 0"
      "fields_lst s2 = map strip fs"
      "dataList s2 = map (row_of (map strip fs)) (filter (data_line True (map strip fs)) rows)"
    using s1 by auto
  have "run_lines initial ((l0 # pre @ l1 # fs @ l2 # mid) @ (l3 # rows @ l4 # post)) = Inr s2"
    using run_lines_append [OF s1(1)] s2(1) by simp
  then have "run_lines initial (l0 # pre @ l1 # fs @ l2 # mid @ l3 # rows @ l4 # post) = Inr s2"
    by simp
  with s2 show ?thesis by (simp add: parseFileText_def)
qed

section \<open>The exceptions the loop can raise\<close>

lemma mapM_Inl: "mapM f xs = Inl e \<Longrightarrow> \<exists>x \<in> set xs. f x = Inl e"
  by (induction xs) (auto split: sum.splits)

lemma if_Inl_Inr: "(if c then Inl a else Inr b) = Inl e \<Longrightarrow> e = a"
  by (cases c) simp_all

lemma int_str_error: "int_str s = Inl e \<Longrightarrow> e = ValueError"
  unfolding int_str_def Let_def by (rule if_Inl_Inr)

lemma dict_get_error: "dict_get d k = Inl e \<Longrightarrow> e = KeyError"
  by (simp add: dict_get_def split: option.splits)

lemma digitSum_error:
  assumes "digitSum x = Inl e"
  shows "e = ValueError"
proof (cases "mapM (\<lambda>c. int_str [c]) (str_int x)")
  case (Inl e')
  with assms have "e = e'" by (simp add: digitSum_def)
  moreover from Inl obtain c where "int_str [c] = Inl e'"
    using mapM_Inl by fastforce
  ultimately show ?thesis by (simp add: int_str_error)
next
  case (Inr ds)
  with assms show ?thesis by (simp add: digitSum_def)
qed

lemma body_value_error:
  assumes "(if isalpha [ch] then dict_get figiAlphaNumMap ch else int_str [ch]) = Inl e"
  shows "e = KeyError \<or> e = ValueError"
proof (cases "isalpha [ch]")
  case True
  with assms have "dict_get figiAlphaNumMap ch = Inl e" by simp
  then show ?thesis by (simp add: dict_get_error)
next
  case False
  with assms have "int_str [ch] = Inl e" by simp
  then show ?thesis by (simp add: int_str_error)
qed

lemma checkFIGIDigit_unfold:
  assumes "length figi = 12" and "isalnum figi"
  shows "checkFIGIDigit figi =
     (case mapM (\<lambda>ch. if isalpha [ch] then dict_get figiAlphaNumMap ch else int_str [ch])
             (butlast figi) of
        Inl e \<Rightarrow> Inl e
      | Inr xx \<Rightarrow>
          (case mapM digitSum (map (\<lambda>i. if i mod 2 = 1 then xx ! i * 2 else xx ! i)
                                  [0 ..< length xx]) of
             Inl e \<Rightarrow> Inl e
           | Inr ds \<Rightarrow> Inr (str_int ((10 - sum_list ds) mod 10) = [figi ! (length figi - 1)])))"
  unfolding checkFIGIDigit_def Let_def using assms by simp

lemma checkFIGIDigit_error:
  assumes "checkFIGIDigit s = Inl e"
  shows "e = KeyError \<or> e = ValueError"
proof -
  from assms have len: "length s = 12" and alnum: "isalnum s"
    unfolding checkFIGIDigit_def by (simp_all split: if_splits)
  note unf = checkFIGIDigit_unfold [OF len alnum]
  let ?f = "\<lambda>ch. if isalpha [ch] then dict_get figiAlphaNumMap ch else int_str [ch]"
  show ?thesis
  proof (cases "mapM ?f (butlast s)")
    case (Inl e')
    then obtain ch where "?f ch = Inl e'"
      using mapM_Inl by fastforce
    then have "e' = KeyError \<or> e' = ValueError" by (rule body_value_error)
    moreover from assms Inl have "e = e'" by (simp add: unf)
    ultimately show ?thesis by simp
  next
    case (Inr xx)
    let ?yy = "map (\<lambda>i. if i mod 2 = 1 then xx ! i * 2 else xx ! i) [0 ..< length xx]"
    show ?thesis
    proof (cases "mapM digitSum ?yy")
      case (Inl e')
      with assms Inr have "e = e'" by (simp add: unf)
      moreover from Inl obtain y where "digitSum y = Inl e'"
        using mapM_Inl by fastforce
      ultimately show ?thesis by (simp add: digitSum_error)
    next
      case Inr2: (Inr ds)
      with assms Inr show ?thesis by (simp add: unf)
    qed
  qed
qed

lemma record_count_error:
  assumes "record_count l = Inl e"
  shows "e = IndexError \<or> e = ValueError"
proof (cases "list_get (str_split (CHR ''='') l) 1")
  case (Inl e')
  then have "e' = IndexError" by (simp add: list_get_def split: if_splits)
  with assms Inl show ?thesis by (simp add: record_count_def)
next
  case (Inr t)
  with assms have "int_str t = Inl e" by (simp add: record_count_def)
  then show ?thesis by (simp add: int_str_error)
qed

lemma state0_block_cases:
  assumes "state st = 0"
  shows "(\<exists>e. state0_block st line = Inl e \<and> (e = IndexError \<or> e = ValueError))
         \<or> (\<exists>st'. state0_block st line = Inr st' \<and> state st' \<noteq> - 1)"
proof (cases "line = ''START-OF-FIELDS'' \<or> line = ''START-OF-DATA''
              \<or> \<not> str_contains ''DATARECORD'' line")
  case True
  with assms show ?thesis by (auto simp: state0_block_def)
next
  case False
  show ?thesis
  proof (cases "record_count line")
    case (Inl e)
    with False have "state0_block st line = Inl e" by (simp add: state0_block_def)
    with record_count_error [OF Inl] show ?thesis by simp
  next
    case (Inr n)
    with False assms show ?thesis by (simp add: state0_block_def)
  qed
qed

lemma state2_row_cases:
  assumes "state st = 2"
  shows "(\<exists>e. state2_row st line = Inl e \<and> (e = InsufficientValues \<or> e = IndexError
                                            \<or> e = KeyError \<or> e = ValueError))
         \<or> (\<exists>st'. state2_row st line = Inr st' \<and> state st' \<noteq> - 1)"
proof (cases "length (datarow_of line) \<noteq> length (fields_lst st)")
  case True
  then have "state2_row st line = Inl InsufficientValues"
    by (simp add: state2_row_def)
  then show ?thesis by simp
next
  case len: False
  show ?thesis
  proof (cases "datarow_of line = []")
    case True
    with len have "state2_row st line = Inl IndexError"
      by (simp add: state2_row_def list_get_last_def)
    then show ?thesis by simp
  next
    case False
    show ?thesis
    proof (cases "checkFIGIDigit (last (datarow_of line))")
      case (Inl e)
      with len False have "state2_row st line = Inl e"
        by (simp add: state2_row_def list_get_last_def)
      with checkFIGIDigit_error [OF Inl] show ?thesis by auto
    next
      case (Inr b)
      with len False assms show ?thesis
        by (cases b) (simp_all add: state2_row_def list_get_last_def Let_def)
    qed
  qed
qed

lemma loop_body_cases:
  assumes "state st \<noteq> - 1"
  shows "(\<exists>e. loop_body st l = Inl e \<and> (e = InsufficientValues \<or> e = IndexError
                                         \<or> e = KeyError \<or> e = ValueError))
         \<or> (\<exists>st'. loop_body st l = Inr st' \<and> state st' \<noteq> - 1)"
proof -
  consider (s0) "state st = 0" | (s1) "state st = 1"
    | (s2e) "state st = 2" "strip l = ''END-OF-DATA''"
    | (s2) "state st = 2" "strip l \<noteq> ''END-OF-DATA''"
    | (other) "state st \<noteq> - 1" "state st \<noteq> 0" "state st \<noteq> 1" "state st \<noteq> 2"
    using assms by blast
  then show ?thesis
  proof cases
    case s0
    then have "loop_body st l = state0_block st (strip l)"
      by (simp add: loop_body_def)
    with state0_block_cases [OF s0, of "strip l"] show ?thesis by auto
  next
    case s1
    then show ?thesis by (simp add: loop_body_def Let_def)
  next
    case s2e
    then show ?thesis by (simp add: loop_body_def)
  next
    case s2
    then have "loop_body st l = state2_row st (strip l)"
      by (simp add: loop_body_def)
    with state2_row_cases [OF s2(1), of "strip l"] show ?thesis by auto
  next
    case other
    then show ?thesis by (simp add: loop_body_def)
  qed
qed

lemma run_lines_started:
  "state st \<noteq> - 1 \<Longrightarrow>
   (\<exists>e. run_lines st ls = Inl e \<and> (e = InsufficientValues \<or> e = IndexError
                                     \<or> e = KeyError \<or> e = ValueError))
   \<or> (\<exists>st'. run_lines st ls = Inr st' \<and> state st' \<noteq> - 1)"
proof (induction ls arbitrary: st)
  case Nil
  then show ?case by simp
next
  case (Cons l ls)
  from loop_body_cases [OF Cons.prems, of l] show ?case
  proof
    assume "\<exists>e. loop_body st l = Inl e \<and> (e = InsufficientValues \<or> e = IndexError
                                             \<or> e = KeyError \<or> e = ValueError)"
    then show ?thesis by auto
  next
    assume "\<exists>st'. loop_body st l = Inr st' \<and> state st' \<noteq> - 1"
    then obtain st1 where 1: "loop_body st l = Inr st1" and 2: "state st1 \<noteq> - 1" by blast
    from Cons.IH [OF 2] 1 show ?thesis by simp
  qed
qed

lemma run_lines_waiting:
  "state st = - 1 \<Longrightarrow> \<forall>l \<in> set ls. strip l \<noteq> ''START-OF-FILE'' \<Longrightarrow> run_lines st ls = Inr st"
  by (induction ls) (simp_all add: loop_body_def)

lemma MissingFileStart_distinct:
  "MissingFileStart \<noteq> UnterminatedFile" "MissingFileStart \<noteq> InsufficientValues"
  "MissingFileStart \<noteq> IndexError" "MissingFileStart \<noteq> KeyError"
  "MissingFileStart \<noteq> ValueError"
  by (simp_all add: MissingFileStart_def UnterminatedFile_def InsufficientValues_def)

lemma data_section_reached:
  assumes l0: "strip l0 = ''START-OF-FILE''"
    and pre: "list_all preamble_line pre"
    and l1: "strip l1 = ''START-OF-FIELDS''"
    and fs: "list_all field_line fs"
    and l2: "strip l2 = ''END-OF-FIELDS''"
    and mid: "list_all preamble_line mid"
    and l3: "strip l3 = ''START-OF-DATA''"
  shows "\<exists>st. run_lines initial (l0 # pre @ l1 # fs @ l2 # mid @ [l3]) = Inr st \<and> state st = 2
              \<and> fields_lst st = map strip fs \<and> dataList st = []"
proof -
  from fields_section [OF l0 pre l1 fs l2 mid] obtain s1 where
    s1: "run_lines initial (l0 # pre @ l1 # fs @ l2 # mid) = Inr s1" "state s1 = 0"
      "fields_lst s1 = map strip fs" "dataList s1 = []"
    by blast
  have "run_lines initial ((l0 # pre @ l1 # fs @ l2 # mid) @ [l3]) = run_lines s1 [l3]"
    by (rule run_lines_append [OF s1(1)])
  also have "\<dots> = Inr (s1\<lparr>state := 2\<rparr>)"
    using open_data_step [OF s1(2) l3] by simp
  finally show ?thesis using s1 by simp
qed

lemma str_split_nonempty: "str_split sep s \<noteq> []"
  by (induction s) (auto split: list.splits)

lemma str_split_single_empty: "str_split sep s = [[]] \<Longrightarrow> s = []"
proof (cases s)
  case Nil
  then show ?thesis by simp
next
  case (Cons c cs)
  assume "str_split sep s = [[]]"
  with Cons str_split_nonempty [of sep cs] show ?thesis
    by (auto split: if_splits list.splits)
qed

lemma str_split_last:
  "s \<noteq> [] \<Longrightarrow> last s = sep \<Longrightarrow> last (str_split sep s) = []"
proof (induction s)
  case Nil
  then show ?case by simp
next
  case (Cons c cs)
  show ?case
  proof (cases "cs = []")
    case True
    with Cons.prems show ?thesis by simp
  next
    case False
    with Cons have "last (str_split sep cs) = []" by simp
    moreover have "str_split sep cs \<noteq> [[]]"
      using False str_split_single_empty by blast
    ultimately show ?thesis
      using str_split_nonempty [of sep cs] by (auto split: list.splits)
  qed
qed

section \<open>Lower-case letters in an identifier\<close>

lemma figiAlphaNumMap_not_upper:
  assumes "\<not> isupper_chr c"
  shows "figiAlphaNumMap c = None"
proof -
  have "c \<notin> set (map char_of [65 ..< 65 + 26 :: nat])"
  proof
    assume "c \<in> set (map char_of [65 ..< 65 + 26 :: nat])"
    then obtain n :: nat where n: "65 \<le> n" "n < 91" and c: "c = char_of n" by auto
    from n have "(of_char (char_of n :: char) :: nat) = n" by simp
    with n c have "isupper_chr c" by (simp add: isupper_chr_def)
    with assms show False by simp
  qed
  then have "c \<notin> dom figiAlphaNumMap"
    unfolding figiAlphaNumMap_def dict_zip_def by (simp only: dom_map_upds) simp
  then show ?thesis by blast
qed

lemma mapM_first_error:
  assumes "\<And>x. x \<in> set xs \<Longrightarrow> f x = Inl e \<or> (\<exists>y. f x = Inr y)"
    and "\<exists>x \<in> set xs. f x = Inl e"
  shows "mapM f xs = Inl e"
  using assms
proof (induction xs)
  case Nil
  then show ?case by simp
next
  case (Cons x xs)
  show ?case
  proof (cases "f x")
    case (Inl e')
    with Cons.prems(1) [of x] have "e' = e" by simp
    with Inl show ?thesis by simp
  next
    case (Inr y)
    with Cons.prems(2) have "\<exists>x \<in> set xs. f x = Inl e" by auto
    with Cons.IH Cons.prems(1) have "mapM f xs = Inl e" by simp
    with Inr show ?thesis by simp
  qed
qed

lemma body_value_alnum:
  assumes "isalnum_chr c"
  shows "(if isalpha [c] then dict_get figiAlphaNumMap c else int_str [c]) = Inl KeyError
         \<or> (\<exists>y. (if isalpha [c] then dict_get figiAlphaNumMap c else int_str [c]) = Inr y)"
proof (cases "islower_chr c")
  case True
  then have "\<not> isupper_chr c" "isalpha [c]"
    by (auto simp: islower_chr_def isupper_chr_def isalpha_def isalpha_chr_def)
  then show ?thesis by (simp add: dict_get_def figiAlphaNumMap_not_upper)
next
  case False
  with assms have "isdigit_chr c \<or> isupper_chr c"
    by (auto simp: isalnum_chr_def isalpha_chr_def)
  then show ?thesis by (simp add: body_value)
qed

lemma checkFIGIDigit_lowercase:
  assumes len: "length figi = 12" and alnum: "isalnum figi"
    and low: "\<exists>c \<in> set (butlast figi). islower_chr c"
  shows "checkFIGIDigit figi = Inl KeyError"
proof -
  let ?f = "\<lambda>ch. if isalpha [ch] then dict_get figiAlphaNumMap ch else int_str [ch]"
  have 1: "?f c = Inl KeyError \<or> (\<exists>y. ?f c = Inr y)" if "c \<in> set (butlast figi)" for c
  proof -
    from that have "c \<in> set figi" by (rule in_set_butlastD)
    with alnum have "isalnum_chr c" by (simp add: isalnum_def list_all_iff)
    then show ?thesis by (rule body_value_alnum)
  qed
  from low obtain c where c: "c \<in> set (butlast figi)" "islower_chr c" by blast
  from c(2) have "\<not> isupper_chr c" "isalpha [c]"
    by (auto simp: islower_chr_def isupper_chr_def isalpha_def isalpha_chr_def)
  then have "?f c = Inl KeyError" by (simp add: dict_get_def figiAlphaNumMap_not_upper)
  with c(1) have 2: "\<exists>x \<in> set (butlast figi). ?f x = Inl KeyError" by blast
  have "mapM ?f (butlast figi) = Inl KeyError"
    by (rule mapM_first_error [OF 1 2])
  then show ?thesis by (simp add: checkFIGIDigit_unfold [OF len alnum])
qed

section \<open>Example lines\<close>

text \<open>
  Lines of a small file, evaluated once: the markers, two field names, three data rows
  (the identifier of the third has a wrong check digit) and lines outside the sections.
\<close>

lemma marker_lines:
  "strip ''START-OF-FILE'' = ''START-OF-FILE''"
  "strip ''START-OF-FIELDS'' = ''START-OF-FIELDS''"
  "strip ''END-OF-FIELDS'' = ''END-OF-FIELDS''"
  "strip ''START-OF-DATA'' = ''START-OF-DATA''"
  "strip ''END-OF-DATA'' = ''END-OF-DATA''"
  by code_simp+

lemma example_names:
  "map strip [''NAME'', ''ID_BB_GLOBAL''] = [''NAME'', ''ID_BB_GLOBAL'']"
  "list_all field_line [''NAME'', ''ID_BB_GLOBAL'']"
  by code_simp+

lemma example_identifiers:
  "checkFIGIDigit ''BBG000BLNNH6'' = Inr True"
  "checkFIGIDigit ''BBG000B9XRY4'' = Inr True"
  "checkFIGIDigit ''BBG000BLNNH7'' = Inr False"
proof -
  have c: "\<forall>c \<in> set ''BBG000BLNNH6''. isdigit_chr c \<or> isupper_chr c"
    "\<forall>c \<in> set ''BBG000B9XRY4''. isdigit_chr c \<or> isupper_chr c"
    "\<forall>c \<in> set ''BBG000BLNNH7''. isdigit_chr c \<or> isupper_chr c"
    by (simp_all add: isdigit_chr_def isupper_chr_def)
  have d: "char_of (48 + spec_check_digit ''BBG000BLNNH'') = CHR ''6''"
    "char_of (48 + spec_check_digit ''BBG000B9XRY'') = CHR ''4''"
    by code_simp+
  show "checkFIGIDigit ''BBG000BLNNH6'' = Inr True"
    using checkFIGIDigit_spec [OF _ c(1)] by (simp add: d)
  show "checkFIGIDigit ''BBG000B9XRY4'' = Inr True"
    using checkFIGIDigit_spec [OF _ c(2)] by (simp add: d)
  show "checkFIGIDigit ''BBG000BLNNH7'' = Inr False"
    using checkFIGIDigit_spec [OF _ c(3)] by (simp add: d)
qed

lemma example_rows_strip:
  "strip ''x|0|2|IBM|BBG000BLNNH6|'' = ''x|0|2|IBM|BBG000BLNNH6|''"
  "strip ''y|0|2|APPLE|BBG000B9XRY4|'' = ''y|0|2|APPLE|BBG000B9XRY4|''"
  "strip ''z|0|2|XXX|BBG000BLNNH7|'' = ''z|0|2|XXX|BBG000BLNNH7|''"
  by code_simp+

lemma example_rows_values:
  "datarow_of ''x|0|2|IBM|BBG000BLNNH6|'' = [''IBM'', ''BBG000BLNNH6'']"
  "datarow_of ''y|0|2|APPLE|BBG000B9XRY4|'' = [''APPLE'', ''BBG000B9XRY4'']"
  "datarow_of ''z|0|2|XXX|BBG000BLNNH7|'' = [''XXX'', ''BBG000BLNNH7'']"
  by code_simp+

lemma example_rows:
  "data_line True [''NAME'', ''ID_BB_GLOBAL''] ''x|0|2|IBM|BBG000BLNNH6|''"
  "data_line True [''NAME'', ''ID_BB_GLOBAL''] ''y|0|2|APPLE|BBG000B9XRY4|''"
  "data_line False [''NAME'', ''ID_BB_GLOBAL''] ''z|0|2|XXX|BBG000BLNNH7|''"
  by (simp_all add: data_line_def example_rows_strip example_rows_values example_identifiers)

lemma example_preamble:
  "list_all preamble_line [''PROGRAMNAME=getdata'']"
  "list_all preamble_line [''TIMESTARTED=Tue May 10'']"
  "list_all preamble_line [''DATARECORDS=2'']"
  by code_simp+

lemma example_lowercase_row:
  "strip ''z|0|2|XXX|BBG000BLNNh6|'' = ''z|0|2|XXX|BBG000BLNNh6|''"
  "datarow_of ''z|0|2|XXX|BBG000BLNNh6|'' = [''XXX'', ''BBG000BLNNh6'']"
  "isalnum ''BBG000BLNNh6''"
  "islower_chr (CHR ''h'')"
  by code_simp+

lemma example_lowercase_identifier: "checkFIGIDigit ''BBG000BLNNh6'' = Inl KeyError"
proof -
  have len: "length ''BBG000BLNNh6'' = 12" by simp
  from example_lowercase_row(4)
  have low: "\<exists>c \<in> set (butlast ''BBG000BLNNh6''). islower_chr c" by simp
  show ?thesis by (rule checkFIGIDigit_lowercase [OF len example_lowercase_row(3) low])
qed

section \<open>The check digit against the specification\<close>

text \<open>
  Claim C1. On a string of 12 characters, each a decimal digit or an upper-case letter,
  \<open>checkFIGIDigit\<close> raises nothing and returns whether the last character is the check
  digit that the specification's computation gives for the first 11.
\<close>

theorem checkFIGIDigit_refines_spec:
  assumes "length figi = 12"
    and "\<forall>c \<in> set figi. isdigit_chr c \<or> isupper_chr c"
  shows "checkFIGIDigit figi
         = Inr (last figi = char_of (48 + spec_check_digit (butlast figi)))"
  using assms by (rule checkFIGIDigit_spec)

theorem checkFIGIDigit_refines_spec_witness:
  "checkFIGIDigit ''BBG000BLNNH6'' = Inr True"
proof -
  have h1: "length ''BBG000BLNNH6'' = 12" by simp
  have h2: "\<forall>c \<in> set ''BBG000BLNNH6''. isdigit_chr c \<or> isupper_chr c"
    by (simp add: isdigit_chr_def isupper_chr_def)
  have d: "char_of (48 + spec_check_digit ''BBG000BLNNH'') = CHR ''6''"
    by code_simp
  show ?thesis
    using checkFIGIDigit_refines_spec [OF h1 h2] by (simp add: d)
qed

text \<open>
  Claim C5 against the code. This identifier has 12 alphanumeric characters, one of the
  first 11 a lower-case letter: \<^verbatim>\<open>isalnum\<close> lets it through, \<^verbatim>\<open>figiAlphaNumMap\<close> has no
  such key, and \<open>checkFIGIDigit\<close> raises \<^verbatim>\<open>KeyError\<close> instead of returning \<^verbatim>\<open>False\<close>.
\<close>

theorem lowercase_body_raises_KeyError:
  "checkFIGIDigit ''BBG000BLNNh6'' = Inl KeyError"
proof -
  have len: "length ''BBG000BLNNh6'' = 12" by simp
  have alnum: "isalnum ''BBG000BLNNh6''" by code_simp
  have "islower_chr (CHR ''h'')" by code_simp
  then have low: "\<exists>c \<in> set (butlast ''BBG000BLNNh6''). islower_chr c" by simp
  show ?thesis by (rule checkFIGIDigit_lowercase [OF len alnum low])
qed

section \<open>Whole files\<close>

text \<open>
  Claim C2. Take a file made of \<^verbatim>\<open>START-OF-FILE\<close>, lines outside the sections,
  \<^verbatim>\<open>START-OF-FIELDS\<close>, \<open>K\<close> field lines, \<^verbatim>\<open>END-OF-FIELDS\<close>, lines outside the sections,
  \<^verbatim>\<open>START-OF-DATA\<close>, \<open>M\<close> data lines, \<^verbatim>\<open>END-OF-DATA\<close> and lines outside the sections,
  where every data line has as many candidate values as there are fields and an
  identifier on which \<open>checkFIGIDigit\<close> returns \<^verbatim>\<open>True\<close>. The constructor raises nothing;
  the object has \<open>nrows = M\<close>, the \<open>K\<close> trimmed field names in their order, and the rows
  of the data lines in file order.
\<close>

theorem well_formed_file_round_trip:
  assumes l0: "strip l0 = ''START-OF-FILE''"
    and pre: "list_all preamble_line pre"
    and l1: "strip l1 = ''START-OF-FIELDS''"
    and fs: "list_all field_line fs"
    and l2: "strip l2 = ''END-OF-FIELDS''"
    and mid: "list_all preamble_line mid"
    and l3: "strip l3 = ''START-OF-DATA''"
    and rows: "list_all (data_line True (map strip fs)) rows"
    and l4: "strip l4 = ''END-OF-DATA''"
    and post: "list_all preamble_line post"
    and K: "length fs = K"
    and M: "length rows = M"
  shows "\<exists>f. BbgDataFile_init (l0 # pre @ l1 # fs @ l2 # mid @ l3 # rows @ l4 # post) = Inr f
             \<and> self_nrows f = int M
             \<and> length (self_fields f) = K
             \<and> self_fields f = map strip fs
             \<and> self_dataList f = map (row_of (self_fields f)) rows"
proof -
  from rows have either:
    "list_all (\<lambda>l. data_line True (map strip fs) l \<or> data_line False (map strip fs) l) rows"
    by (simp add: list_all_iff)
  from rows have keep: "filter (data_line True (map strip fs)) rows = rows"
    by (simp add: list_all_iff)
  from whole_file [OF l0 pre l1 fs l2 mid l3 either l4 post]
  have "parseFileText (l0 # pre @ l1 # fs @ l2 # mid @ l3 # rows @ l4 # post)
        = Inr (map strip fs, map (row_of (map strip fs)) rows)"
    by (simp only: keep)
  then show ?thesis
    using K M by (simp add: BbgDataFile_init_def)
qed

theorem well_formed_file_round_trip_witness:
  "\<exists>f. BbgDataFile_init
          [''START-OF-FILE'', ''PROGRAMNAME=getdata'', ''START-OF-FIELDS'', ''NAME'',
           ''ID_BB_GLOBAL'', ''END-OF-FIELDS'', ''TIMESTARTED=Tue May 10'', ''START-OF-DATA'',
           ''x|0|2|IBM|BBG000BLNNH6|'', ''y|0|2|APPLE|BBG000B9XRY4|'',
           ''END-OF-DATA'', ''DATARECORDS=2''] = Inr f
       \<and> self_nrows f = 2 \<and> length (self_fields f) = 2"
proof -
  have rows: "list_all (data_line True (map strip [''NAME'', ''ID_BB_GLOBAL'']))
                [''x|0|2|IBM|BBG000BLNNH6|'', ''y|0|2|APPLE|BBG000B9XRY4|'']"
    unfolding example_names(1) by (simp add: example_rows)
  have K: "length [''NAME'', ''ID_BB_GLOBAL''] = 2" by simp
  have M: "length [''x|0|2|IBM|BBG000BLNNH6|'', ''y|0|2|APPLE|BBG000B9XRY4|''] = 2" by simp
  from well_formed_file_round_trip [OF marker_lines(1) example_preamble(1) marker_lines(2)
      example_names(2) marker_lines(3) example_preamble(2) marker_lines(4) rows
      marker_lines(5) example_preamble(3) K M]
  obtain f where
    "BbgDataFile_init
       (''START-OF-FILE'' # [''PROGRAMNAME=getdata''] @ ''START-OF-FIELDS''
        # [''NAME'', ''ID_BB_GLOBAL''] @ ''END-OF-FIELDS'' # [''TIMESTARTED=Tue May 10'']
        @ ''START-OF-DATA'' # [''x|0|2|IBM|BBG000BLNNH6|'', ''y|0|2|APPLE|BBG000B9XRY4|'']
        @ ''END-OF-DATA'' # [''DATARECORDS=2'']) = Inr f"
    and "self_nrows f = int 2" and "length (self_fields f) = 2"
    by blast
  then show ?thesis by (simp only: append_Cons append_Nil of_nat_numeral) blast
qed

text \<open>
  In a file of the shape above, a data line on whose identifier \<open>checkFIGIDigit\<close> returns
  \<^verbatim>\<open>False\<close> is skipped: the rows are those of the other data lines, in file order, and
  \<open>nrows\<close> is the number of data lines minus one.
\<close>

lemma rejected_row_is_skipped:
  assumes l0: "strip l0 = ''START-OF-FILE''"
    and pre: "list_all preamble_line pre"
    and l1: "strip l1 = ''START-OF-FIELDS''"
    and fs: "list_all field_line fs"
    and l2: "strip l2 = ''END-OF-FIELDS''"
    and mid: "list_all preamble_line mid"
    and l3: "strip l3 = ''START-OF-DATA''"
    and before: "list_all (data_line True (map strip fs)) before"
    and bad: "data_line False (map strip fs) bad"
    and after: "list_all (data_line True (map strip fs)) after"
    and l4: "strip l4 = ''END-OF-DATA''"
    and post: "list_all preamble_line post"
  shows "\<exists>f. BbgDataFile_init
               (l0 # pre @ l1 # fs @ l2 # mid @ l3 # (before @ bad # after) @ l4 # post) = Inr f
             \<and> self_fields f = map strip fs
             \<and> self_dataList f = map (row_of (self_fields f)) (before @ after)
             \<and> self_nrows f = int (length (before @ bad # after)) - 1"
proof -
  from before bad after have either:
    "list_all (\<lambda>l. data_line True (map strip fs) l \<or> data_line False (map strip fs) l)
       (before @ bad # after)"
    by (auto simp: list_all_iff)
  from bad have "\<not> data_line True (map strip fs) bad" by (rule data_line_exclusive)
  with before after have keep:
    "filter (data_line True (map strip fs)) (before @ bad # after) = before @ after"
    by (simp add: list_all_iff)
  from whole_file [OF l0 pre l1 fs l2 mid l3 either l4 post]
  have "parseFileText (l0 # pre @ l1 # fs @ l2 # mid @ l3 # (before @ bad # after) @ l4 # post)
        = Inr (map strip fs, map (row_of (map strip fs)) (before @ after))"
    by (simp only: keep)
  then show ?thesis
    by (simp add: BbgDataFile_init_def)
qed

lemma rejected_row_is_skipped_example:
  "\<exists>f. BbgDataFile_init
          [''START-OF-FILE'', ''START-OF-FIELDS'', ''NAME'', ''ID_BB_GLOBAL'', ''END-OF-FIELDS'',
           ''START-OF-DATA'', ''x|0|2|IBM|BBG000BLNNH6|'', ''z|0|2|XXX|BBG000BLNNH7|'',
           ''y|0|2|APPLE|BBG000B9XRY4|'', ''END-OF-DATA''] = Inr f
       \<and> self_nrows f = 2"
proof -
  have e: "list_all preamble_line []" by simp
  have before: "list_all (data_line True (map strip [''NAME'', ''ID_BB_GLOBAL'']))
                  [''x|0|2|IBM|BBG000BLNNH6|'']"
    unfolding example_names(1) by (simp add: example_rows)
  have bad: "data_line False (map strip [''NAME'', ''ID_BB_GLOBAL''])
               ''z|0|2|XXX|BBG000BLNNH7|''"
    unfolding example_names(1) by (simp add: example_rows)
  have after: "list_all (data_line True (map strip [''NAME'', ''ID_BB_GLOBAL'']))
                 [''y|0|2|APPLE|BBG000B9XRY4|'']"
    unfolding example_names(1) by (simp add: example_rows)
  from rejected_row_is_skipped [OF marker_lines(1) e marker_lines(2) example_names(2)
      marker_lines(3) e marker_lines(4) before bad after marker_lines(5) e]
  obtain f where
    "BbgDataFile_init
       (''START-OF-FILE'' # [] @ ''START-OF-FIELDS'' # [''NAME'', ''ID_BB_GLOBAL'']
        @ ''END-OF-FIELDS'' # [] @ ''START-OF-DATA''
        # ([''x|0|2|IBM|BBG000BLNNH6|''] @ ''z|0|2|XXX|BBG000BLNNH7|''
           # [''y|0|2|APPLE|BBG000B9XRY4|''])
        @ ''END-OF-DATA'' # []) = Inr f"
    and "self_nrows f
         = int (length ([''x|0|2|IBM|BBG000BLNNH6|''] @ ''z|0|2|XXX|BBG000BLNNH7|''
                        # [''y|0|2|APPLE|BBG000B9XRY4|''])) - 1"
    by blast
  then have "BbgDataFile_init
          [''START-OF-FILE'', ''START-OF-FIELDS'', ''NAME'', ''ID_BB_GLOBAL'', ''END-OF-FIELDS'',
           ''START-OF-DATA'', ''x|0|2|IBM|BBG000BLNNH6|'', ''z|0|2|XXX|BBG000BLNNH7|'',
           ''y|0|2|APPLE|BBG000B9XRY4|'', ''END-OF-DATA''] = Inr f"
    and "self_nrows f = 2"
    by simp_all
  then show ?thesis by blast
qed

text \<open>
  Claim C9 against the code. An identifier of 12 alphanumeric characters with a lower-case
  letter among the first 11 fails the checksum of the specification, yet its row is not
  skipped: \<open>checkFIGIDigit\<close> raises \<^verbatim>\<open>KeyError\<close> on it, nothing catches the exception,
  and the whole parse is lost, here for a file whose two other rows are valid.
\<close>

theorem lowercase_identifier_aborts_parse:
  "parseFileText
     [''START-OF-FILE'', ''START-OF-FIELDS'', ''NAME'', ''ID_BB_GLOBAL'', ''END-OF-FIELDS'',
      ''START-OF-DATA'', ''x|0|2|IBM|BBG000BLNNH6|'', ''z|0|2|XXX|BBG000BLNNh6|'',
      ''y|0|2|APPLE|BBG000B9XRY4|'', ''END-OF-DATA''] = Inl KeyError
   \<and> BbgDataFile_init
     [''START-OF-FILE'', ''START-OF-FIELDS'', ''NAME'', ''ID_BB_GLOBAL'', ''END-OF-FIELDS'',
      ''START-OF-DATA'', ''x|0|2|IBM|BBG000BLNNH6|'', ''z|0|2|XXX|BBG000BLNNh6|'',
      ''y|0|2|APPLE|BBG000B9XRY4|'', ''END-OF-DATA''] = Inl KeyError"
proof -
  have e: "list_all preamble_line []" by simp
  from data_section_reached [OF marker_lines(1) e marker_lines(2) example_names(2)
      marker_lines(3) e marker_lines(4)]
  obtain s0 where
    s0: "run_lines initial [''START-OF-FILE'', ''START-OF-FIELDS'', ''NAME'', ''ID_BB_GLOBAL'',
                            ''END-OF-FIELDS'', ''START-OF-DATA''] = Inr s0"
      "state s0 = 2" "fields_lst s0 = [''NAME'', ''ID_BB_GLOBAL'']"
    unfolding example_names(1) by auto
  from example_rows(1) s0(3)
  have "data_line True (fields_lst s0) ''x|0|2|IBM|BBG000BLNNH6|''" by simp
  from data_row_accepted [OF s0(2) this] obtain s1 where
    s1: "loop_body s0 ''x|0|2|IBM|BBG000BLNNH6|'' = Inr s1" "state s1 = 2"
      "fields_lst s1 = [''NAME'', ''ID_BB_GLOBAL'']"
    using s0(3) by auto
  have "run_lines initial
          ([''START-OF-FILE'', ''START-OF-FIELDS'', ''NAME'', ''ID_BB_GLOBAL'',
            ''END-OF-FIELDS'', ''START-OF-DATA''] @ [''x|0|2|IBM|BBG000BLNNH6|'']) = Inr s1"
    using run_lines_append [OF s0(1), of "[''x|0|2|IBM|BBG000BLNNH6|'']"] s1(1) by simp
  then have pre: "run_lines initial
          [''START-OF-FILE'', ''START-OF-FIELDS'', ''NAME'', ''ID_BB_GLOBAL'',
           ''END-OF-FIELDS'', ''START-OF-DATA'', ''x|0|2|IBM|BBG000BLNNH6|''] = Inr s1"
    by simp
  have "strip ''z|0|2|XXX|BBG000BLNNh6|'' \<noteq> ''END-OF-DATA''"
    unfolding example_lowercase_row(1) by simp
  then have "loop_body s1 ''z|0|2|XXX|BBG000BLNNh6|'' = Inl KeyError"
    by (rule data_row_raises [OF s1(2)])
       (simp_all add: example_lowercase_row s1(3) example_lowercase_identifier)
  from run_lines_fails [OF pre this, of "[''y|0|2|APPLE|BBG000B9XRY4|'', ''END-OF-DATA'']"]
  have "run_lines initial
          [''START-OF-FILE'', ''START-OF-FIELDS'', ''NAME'', ''ID_BB_GLOBAL'', ''END-OF-FIELDS'',
           ''START-OF-DATA'', ''x|0|2|IBM|BBG000BLNNH6|'', ''z|0|2|XXX|BBG000BLNNh6|'',
           ''y|0|2|APPLE|BBG000B9XRY4|'', ''END-OF-DATA''] = Inl KeyError"
    by simp
  then show ?thesis by (simp add: parseFileText_def BbgDataFile_init_def)
qed

text \<open>
  Claim C3, amended. A fields section that declares the same name twice is accepted:
  \<^verbatim>\<open>END-OF-FIELDS\<close> only rebuilds \<^verbatim>\<open>fieldsLoc\<close> and returns to state 0, with no test for
  duplicates. For a file of the shape of claim C2 whose field names are not distinct (and
  whose data lines are each kept or skipped), the constructor raises nothing and the
  object's fields are the declared names, duplicates included.
\<close>

theorem duplicate_field_names_are_kept:
  assumes l0: "strip l0 = ''START-OF-FILE''"
    and pre: "list_all preamble_line pre"
    and l1: "strip l1 = ''START-OF-FIELDS''"
    and fs: "list_all field_line fs"
    and dup: "\<not> distinct (map strip fs)"
    and l2: "strip l2 = ''END-OF-FIELDS''"
    and mid: "list_all preamble_line mid"
    and l3: "strip l3 = ''START-OF-DATA''"
    and rows: "list_all (\<lambda>l. data_line True (map strip fs) l \<or> data_line False (map strip fs) l) rows"
    and l4: "strip l4 = ''END-OF-DATA''"
    and post: "list_all preamble_line post"
  shows "\<exists>f. BbgDataFile_init (l0 # pre @ l1 # fs @ l2 # mid @ l3 # rows @ l4 # post) = Inr f
             \<and> self_fields f = map strip fs \<and> \<not> distinct (self_fields f)"
proof -
  from whole_file [OF l0 pre l1 fs l2 mid l3 rows l4 post] dup
  show ?thesis by (simp add: BbgDataFile_init_def)
qed

theorem duplicate_field_names_are_kept_witness:
  "\<exists>f. BbgDataFile_init
          [''START-OF-FILE'', ''START-OF-FIELDS'', ''NAME'', ''NAME'',
           ''END-OF-FIELDS'', ''START-OF-DATA'', ''END-OF-DATA''] = Inr f
       \<and> self_fields f = [''NAME'', ''NAME'']"
proof -
  have e: "list_all preamble_line []" by simp
  have n: "map strip [''NAME'', ''NAME''] = [''NAME'', ''NAME'']" by code_simp
  have fs: "list_all field_line [''NAME'', ''NAME'']" by code_simp
  have dup: "\<not> distinct (map strip [''NAME'', ''NAME''])" by simp
  have rows: "list_all (\<lambda>l. data_line True (map strip [''NAME'', ''NAME'']) l
                            \<or> data_line False (map strip [''NAME'', ''NAME'']) l) []"
    by simp
  from duplicate_field_names_are_kept [OF marker_lines(1) e marker_lines(2) fs dup
      marker_lines(3) e marker_lines(4) rows marker_lines(5) e]
  obtain f where
    "BbgDataFile_init
       (''START-OF-FILE'' # [] @ ''START-OF-FIELDS'' # [''NAME'', ''NAME'']
        @ ''END-OF-FIELDS'' # [] @ ''START-OF-DATA'' # [] @ ''END-OF-DATA'' # []) = Inr f"
    and "self_fields f = map strip [''NAME'', ''NAME'']"
    by blast
  then show ?thesis by (simp only: append_Cons append_Nil n) blast
qed

text \<open>
  Claim C3 as stated fails: this file declares \<^verbatim>\<open>NAME\<close> twice and is parsed.
\<close>

theorem duplicate_field_names_parse:
  "parseFileText [''START-OF-FILE'', ''START-OF-FIELDS'', ''NAME'', ''NAME'', ''END-OF-FIELDS'']
   = Inr ([''NAME'', ''NAME''], [])"
proof -
  have n: "strip ''NAME'' = ''NAME''" by code_simp
  show ?thesis
    by (simp add: parseFileText_def loop_body_def state0_block_def initial_def n marker_lines
          Let_def)
qed

text \<open>
  Claim C6, amended. Before \<^verbatim>\<open>START-OF-FILE\<close> a line that is not that marker is passed
  over, and the state stays \<open>-1\<close>. The parse raises
  \<^verbatim>\<open>Exception('File Structure Invalid. Could not find START-OF-FILE')\<close> exactly when no
  line of the input, trimmed, is \<^verbatim>\<open>START-OF-FILE\<close>.
\<close>

theorem missing_start_iff:
  "parseFileText lines = Inl MissingFileStart
   \<longleftrightarrow> (\<forall>l \<in> set lines. strip l \<noteq> ''START-OF-FILE'')"
proof
  assume none: "\<forall>l \<in> set lines. strip l \<noteq> ''START-OF-FILE''"
  have "state initial = - 1" by (simp add: initial_def)
  from run_lines_waiting [OF this none] show "parseFileText lines = Inl MissingFileStart"
    by (simp add: parseFileText_def initial_def)
next
  assume fails: "parseFileText lines = Inl MissingFileStart"
  show "\<forall>l \<in> set lines. strip l \<noteq> ''START-OF-FILE''"
  proof (rule ccontr)
    assume "\<not> (\<forall>l \<in> set lines. strip l \<noteq> ''START-OF-FILE'')"
    then have "\<exists>l \<in> set lines. strip l = ''START-OF-FILE''" by simp
    then obtain a l b where
      lines: "lines = a @ l # b" and l: "strip l = ''START-OF-FILE''"
      and a: "\<forall>x \<in> set a. strip x \<noteq> ''START-OF-FILE''"
      using split_list_first_prop [of lines "\<lambda>l. strip l = ''START-OF-FILE''"] by blast
    have "state initial = - 1" by (simp add: initial_def)
    from run_lines_waiting [OF this a] have "run_lines initial a = Inr initial" .
    from run_lines_append [OF this, of "l # b"] start_step [OF l]
    have run: "run_lines initial lines = run_lines (initial\<lparr>state := 0\<rparr>) b"
      by (simp add: lines)
    have "state (initial\<lparr>state := 0\<rparr>) \<noteq> - 1" by simp
    from run_lines_started [OF this, of b] show False
    proof
      assume "\<exists>e. run_lines (initial\<lparr>state := 0\<rparr>) b = Inl e
                \<and> (e = InsufficientValues \<or> e = IndexError \<or> e = KeyError \<or> e = ValueError)"
      then obtain e where e: "run_lines initial lines = Inl e"
        "e = InsufficientValues \<or> e = IndexError \<or> e = KeyError \<or> e = ValueError"
        unfolding run by blast
      from e(1) fails have "e = MissingFileStart" by (simp add: parseFileText_def)
      with e(2) MissingFileStart_distinct show False by auto
    next
      assume "\<exists>st'. run_lines (initial\<lparr>state := 0\<rparr>) b = Inr st' \<and> state st' \<noteq> - 1"
      then obtain st' where st': "run_lines initial lines = Inr st'" "state st' \<noteq> - 1"
        unfolding run by blast
      with fails MissingFileStart_distinct(1) show False
        by (simp add: parseFileText_def split: if_splits)
    qed
  qed
qed

theorem missing_start_iff_witness:
  "parseFileText [''START-OF-FIELDS'', ''NAME'', ''END-OF-FIELDS''] = Inl MissingFileStart"
proof -
  have "\<forall>l \<in> set [''START-OF-FIELDS'', ''NAME'', ''END-OF-FIELDS'']. strip l \<noteq> ''START-OF-FILE''"
    by code_simp
  with missing_start_iff [of "[''START-OF-FIELDS'', ''NAME'', ''END-OF-FIELDS'']"]
  show ?thesis by blast
qed

text \<open>
  Claim C6 as stated fails: a line before \<^verbatim>\<open>START-OF-FILE\<close> does not fail the parse.
\<close>

theorem line_before_start_is_skipped:
  "parseFileText [''junk'', ''START-OF-FILE''] = Inr ([], [])"
proof -
  have j: "strip ''junk'' = ''junk''" by code_simp
  show ?thesis
    by (simp add: parseFileText_def loop_body_def initial_def j marker_lines)
qed

section \<open>Data rows\<close>

text \<open>
  Claim C7, amended. The candidate values of a data line are its pipe-split tokens
  without the first three and without the last remaining token, whatever that token is.
  When the line ends in the pipe and has more than three tokens, the token left out is
  the empty one after the final pipe: the tokens are the three leading ones, the
  candidate values, and the empty token.
\<close>

theorem datarow_of_drops_last_token:
  "datarow_of line = butlast (drop 3 (str_split (CHR ''|'') line))
   \<and> (line \<noteq> [] \<and> last line = CHR ''|'' \<and> 3 < length (str_split (CHR ''|'') line)
      \<longrightarrow> str_split (CHR ''|'') line
          = take 3 (str_split (CHR ''|'') line) @ datarow_of line @ [[]])"
proof (intro conjI impI)
  show eq: "datarow_of line = butlast (drop 3 (str_split (CHR ''|'') line))"
    by (simp add: datarow_of_def Let_def butlast_conv_take)
  assume a: "line \<noteq> [] \<and> last line = CHR ''|'' \<and> 3 < length (str_split (CHR ''|'') line)"
  let ?ts = "str_split (CHR ''|'') line"
  from a have ne: "drop 3 ?ts \<noteq> []" by simp
  from a have "last ?ts = []" by (simp add: str_split_last)
  with ne have "last (drop 3 ?ts) = []" by simp
  with ne have "drop 3 ?ts = butlast (drop 3 ?ts) @ [[]]"
    by (metis append_butlast_last_id)
  then have "drop 3 ?ts = datarow_of line @ [[]]" by (simp only: eq)
  then have "take 3 ?ts @ drop 3 ?ts = take 3 ?ts @ datarow_of line @ [[]]" by simp
  then show "?ts = take 3 ?ts @ datarow_of line @ [[]]" by (simp only: append_take_drop_id)
qed

theorem datarow_of_drops_last_token_witness:
  "datarow_of ''m1|m2|m3|v1|v2|'' = [''v1'', ''v2'']
   \<and> str_split (CHR ''|'') ''m1|m2|m3|v1|v2|''
     = take 3 (str_split (CHR ''|'') ''m1|m2|m3|v1|v2|'') @ datarow_of ''m1|m2|m3|v1|v2|'' @ [[]]"
proof -
  have d: "datarow_of ''m1|m2|m3|v1|v2|'' = [''v1'', ''v2'']"
    by code_simp
  have h: "''m1|m2|m3|v1|v2|'' \<noteq> [] \<and> last ''m1|m2|m3|v1|v2|'' = CHR ''|''
           \<and> 3 < length (str_split (CHR ''|'') ''m1|m2|m3|v1|v2|'')"
    by code_simp
  from datarow_of_drops_last_token [of "''m1|m2|m3|v1|v2|''"] h
  have "str_split (CHR ''|'') ''m1|m2|m3|v1|v2|''
     = take 3 (str_split (CHR ''|'') ''m1|m2|m3|v1|v2|'') @ datarow_of ''m1|m2|m3|v1|v2|'' @ [[]]"
    by blast
  with d show ?thesis by blast
qed

text \<open>
  Claim C7 as stated fails: on a line that does not end in the pipe the last value is
  left out.
\<close>

theorem datarow_of_loses_value: "datarow_of ''m1|m2|m3|v1|v2'' = [''v1'']"
  by (simp add: datarow_of_def)

text \<open>
  Claim C8. When the loop has read the lines \<open>pre\<close> without an exception and is in the data
  section (\<open>state = 2\<close>), a next line that is not \<^verbatim>\<open>END-OF-DATA\<close> and whose number of
  candidate values differs from the number of declared fields makes the whole parse raise
  \<^verbatim>\<open>Exception('Insufficient values found in row')\<close>, whatever follows: neither
  \<open>parseFileText\<close> nor the constructor returns a result.
\<close>

theorem field_count_mismatch_aborts:
  assumes "run_lines initial pre = Inr st" and "state st = 2"
    and "strip raw \<noteq> ''END-OF-DATA''"
    and "length (datarow_of (strip raw)) \<noteq> length (fields_lst st)"
  shows "parseFileText (pre @ raw # rest) = Inl InsufficientValues
         \<and> BbgDataFile_init (pre @ raw # rest) = Inl InsufficientValues"
proof -
  from assms(2-4) have "loop_body st raw = Inl InsufficientValues"
    by (simp add: loop_body_def state2_row_def)
  from run_lines_fails [OF assms(1) this]
  have "run_lines initial (pre @ raw # rest) = Inl InsufficientValues" .
  then show ?thesis by (simp add: parseFileText_def BbgDataFile_init_def)
qed

theorem field_count_mismatch_aborts_witness:
  "parseFileText [''START-OF-FILE'', ''START-OF-FIELDS'', ''NAME'', ''ID_BB_GLOBAL'',
                  ''END-OF-FIELDS'', ''START-OF-DATA'', ''x|0|1|BBG000BLNNH6|'',
                  ''END-OF-DATA'']
   = Inl InsufficientValues"
proof -
  have f: "list_all field_line [''NAME'', ''ID_BB_GLOBAL'']" by code_simp
  have e: "list_all preamble_line []" by simp
  from data_section_reached [OF marker_lines(1) e marker_lines(2) f marker_lines(3) e marker_lines(4)]
  obtain st where
    st: "run_lines initial [''START-OF-FILE'', ''START-OF-FIELDS'', ''NAME'', ''ID_BB_GLOBAL'',
                            ''END-OF-FIELDS'', ''START-OF-DATA''] = Inr st"
      "state st = 2" "fields_lst st = map strip [''NAME'', ''ID_BB_GLOBAL'']"
    by auto
  have r: "strip ''x|0|1|BBG000BLNNH6|'' \<noteq> ''END-OF-DATA''" by code_simp
  have n: "length (datarow_of (strip ''x|0|1|BBG000BLNNH6|'')) \<noteq> length (fields_lst st)"
    unfolding st(3) by code_simp
  from field_count_mismatch_aborts [OF st(1,2) r n, of "[''END-OF-DATA'']"]
  show ?thesis by simp
qed

text \<open>
  Claim C10. When the loop is in the data section with no field declared, a line that is
  not \<^verbatim>\<open>END-OF-DATA\<close> and has no candidate value passes the count test (0 = 0); reading
  \<^verbatim>\<open>datarow[-1]\<close> then raises \<^verbatim>\<open>IndexError\<close>, which nothing catches.
\<close>

theorem empty_row_raises_IndexError:
  assumes "run_lines initial pre = Inr st" and "state st = 2"
    and "fields_lst st = []"
    and "strip raw \<noteq> ''END-OF-DATA''"
    and "datarow_of (strip raw) = []"
  shows "parseFileText (pre @ raw # rest) = Inl IndexError
         \<and> BbgDataFile_init (pre @ raw # rest) = Inl IndexError"
proof -
  from assms(2-5) have "loop_body st raw = Inl IndexError"
    by (simp add: loop_body_def state2_row_def list_get_last_def)
  from run_lines_fails [OF assms(1) this]
  have "run_lines initial (pre @ raw # rest) = Inl IndexError" .
  then show ?thesis by (simp add: parseFileText_def BbgDataFile_init_def)
qed

theorem empty_row_raises_IndexError_witness:
  "parseFileText [''START-OF-FILE'', ''START-OF-FIELDS'', ''END-OF-FIELDS'',
                  ''START-OF-DATA'', ''x|0|0|'', ''END-OF-DATA'']
   = Inl IndexError"
proof -
  have e: "list_all preamble_line []" by simp
  have f: "list_all field_line []" by simp
  from data_section_reached [OF marker_lines(1) e marker_lines(2) f marker_lines(3) e marker_lines(4)]
  obtain st where
    st: "run_lines initial [''START-OF-FILE'', ''START-OF-FIELDS'', ''END-OF-FIELDS'',
                            ''START-OF-DATA''] = Inr st"
      "state st = 2" "fields_lst st = []"
    by auto
  have r: "strip ''x|0|0|'' \<noteq> ''END-OF-DATA''" by code_simp
  have n: "datarow_of (strip ''x|0|0|'') = []" by code_simp
  from empty_row_raises_IndexError [OF st r n, of "[''END-OF-DATA'']"]
  show ?thesis by simp
qed

section \<open>The query\<close>

text \<open>
  Claim C4 against the code. On the object of a parsed file, asking for the columns
  \<^verbatim>\<open>Unknown1\<close> and \<^verbatim>\<open>Unknown2\<close> raises \<^verbatim>\<open>TypeError\<close>, from adding the list of
  offending names to the message string, and not an exception that carries the names;
  asking for declared columns returns their values.
\<close>

theorem unknown_columns_raise_TypeError:
  "\<exists>f. BbgDataFile_init
          [''START-OF-FILE'', ''START-OF-FIELDS'', ''NAME'', ''ID_BB_GLOBAL'', ''END-OF-FIELDS'',
           ''START-OF-DATA'', ''x|0|2|IBM|BBG000BLNNH6|'', ''END-OF-DATA''] = Inr f
       \<and> getDataForFields f [''Unknown1'', ''Unknown2''] = Inl TypeError
       \<and> getDataForFields f [''ID_BB_GLOBAL'', ''NAME''] = Inr [[''BBG000BLNNH6'', ''IBM'']]"
proof -
  have e: "list_all preamble_line []" by simp
  have rows: "list_all (\<lambda>l. data_line True (map strip [''NAME'', ''ID_BB_GLOBAL'']) l
                            \<or> data_line False (map strip [''NAME'', ''ID_BB_GLOBAL'']) l)
                [''x|0|2|IBM|BBG000BLNNH6|'']"
    unfolding example_names(1) by (simp add: example_rows)
  have "parseFileText
          (''START-OF-FILE'' # [] @ ''START-OF-FIELDS'' # [''NAME'', ''ID_BB_GLOBAL'']
           @ ''END-OF-FIELDS'' # [] @ ''START-OF-DATA'' # [''x|0|2|IBM|BBG000BLNNH6|'']
           @ ''END-OF-DATA'' # [])
        = Inr (map strip [''NAME'', ''ID_BB_GLOBAL''],
               map (row_of (map strip [''NAME'', ''ID_BB_GLOBAL'']))
                 (filter (data_line True (map strip [''NAME'', ''ID_BB_GLOBAL'']))
                    [''x|0|2|IBM|BBG000BLNNH6|'']))"
    by (rule whole_file [OF marker_lines(1) e marker_lines(2) example_names(2)
          marker_lines(3) e marker_lines(4) rows marker_lines(5) e])
  then have p: "parseFileText
          [''START-OF-FILE'', ''START-OF-FIELDS'', ''NAME'', ''ID_BB_GLOBAL'', ''END-OF-FIELDS'',
           ''START-OF-DATA'', ''x|0|2|IBM|BBG000BLNNH6|'', ''END-OF-DATA'']
        = Inr ([''NAME'', ''ID_BB_GLOBAL''],
               [dict_zip [''NAME'', ''ID_BB_GLOBAL''] [''IBM'', ''BBG000BLNNH6'']])"
    unfolding example_names(1)
    by (simp add: example_rows row_of_def example_rows_strip example_rows_values)
  let ?f = "\<lparr>self_fields = [''NAME'', ''ID_BB_GLOBAL''],
             self_dataList = [dict_zip [''NAME'', ''ID_BB_GLOBAL''] [''IBM'', ''BBG000BLNNH6'']],
             self_nrows = 1\<rparr>"
  have i: "BbgDataFile_init
          [''START-OF-FILE'', ''START-OF-FIELDS'', ''NAME'', ''ID_BB_GLOBAL'', ''END-OF-FIELDS'',
           ''START-OF-DATA'', ''x|0|2|IBM|BBG000BLNNH6|'', ''END-OF-DATA''] = Inr ?f"
    unfolding BbgDataFile_init_def p by simp
  have u: "getDataForFields ?f [''Unknown1'', ''Unknown2''] = Inl TypeError"
    by (simp add: getDataForFields_def)
  have k: "getDataForFields ?f [''ID_BB_GLOBAL'', ''NAME''] = Inr [[''BBG000BLNNH6'', ''IBM'']]"
    by (simp add: getDataForFields_def dict_get_def dict_zip_def)
  from i u k show ?thesis by blast
qed

end
